theory Spec2Isabelle
  imports Complex_Main
begin

section \<open>Data model (src/src/App.tsx, lines 8-32)\<close>

text \<open>
  The conversation archive is parsed JSON, so every object-valued field the code tests
  for presence before use is optional here: a node may lack its message, a message its
  author or its content, a content its parts array.  Strings are lists of 8-bit
  characters; the object \<open>mapping\<close> is an association list read with \<open>map_of\<close>
  (finitely many keys, as any parsed object has); \<open>create_time\<close> is a number, here a
  rational.
\<close>

record Author =
  role :: string

record Content =
  content_type :: string
  parts :: "string list option"

record Message =
  id_message :: string
  author :: "Author option"
  content :: "Content option"

record ConversationNode =
  id_node :: string
  message :: "Message option"
  parent :: "string option"
  children :: "string list"

record Conversation =
  id_conversation :: string
  title :: string
  create_time :: rat
  mapping :: "(string \<times> ConversationNode) list"
  current_node :: string

section \<open>String primitives of the host language\<close>

text \<open>
  A character is a code unit below 256 (Basic Latin and Latin-1 Supplement).  On these,
  \<open>String.prototype.toLowerCase\<close> works unit by unit: it adds 32 to the capital letters
  \<open>A\<close> to \<open>Z\<close> (65 to 90) and to the capital letters of Latin-1 (192 to 222, without
  the multiplication sign 215), and leaves every other unit as it is.
\<close>

definition toLowerCase_char :: "char \<Rightarrow> char" where
  "toLowerCase_char c =
     (let n = (of_char c :: nat)
      in if (65 \<le> n \<and> n \<le> 90) \<or> (192 \<le> n \<and> n \<le> 222 \<and> n \<noteq> 215)
         then char_of (n + 32)
         else c)"

definition toLowerCase :: "string \<Rightarrow> string" where
  "toLowerCase s = map toLowerCase_char s"

text \<open>\<open>String.prototype.startsWith\<close> and \<open>String.prototype.includes\<close>.\<close>

fun startsWith :: "string \<Rightarrow> string \<Rightarrow> bool" where
  "startsWith s [] = True"
| "startsWith [] (p # ps) = False"
| "startsWith (c # cs) (p # ps) = (c = p \<and> startsWith cs ps)"

fun str_includes :: "string \<Rightarrow> string \<Rightarrow> bool" where
  "str_includes [] sub = (sub = [])"
| "str_includes (c # cs) sub = (startsWith (c # cs) sub \<or> str_includes cs sub)"

text \<open>\<open>Array.prototype.join\<close> on an array of strings.\<close>

fun join :: "string \<Rightarrow> string list \<Rightarrow> string" where
  "join sep [] = []"
| "join sep [p] = p"
| "join sep (p # q # ps) = p @ sep @ join sep (q # ps)"

text \<open>
  Truthiness of a value of type \<open>string | null\<close>: \<open>null\<close>, \<open>undefined\<close> and the
  empty string are falsy.
\<close>

fun truthy :: "string option \<Rightarrow> bool" where
  "truthy None = False"
| "truthy (Some k) = (k \<noteq> [])"

section \<open>Thread reconstruction (handleSelectConversation, App.tsx lines 199-211)\<close>

text \<open>
  The test of line 205: the node's message, its content and its parts are present and
  the parts array is not empty.  (The node itself is looked up by the loop.)
\<close>

definition has_parts :: "ConversationNode \<Rightarrow> bool" where
  "has_parts node =
     (case message node of
        None \<Rightarrow> False
      | Some msg \<Rightarrow>
          (case content msg of
             None \<Rightarrow> False
           | Some cnt \<Rightarrow>
               (case parts cnt of
                  None \<Rightarrow> False
                | Some ps \<Rightarrow> length ps > 0)))"

text \<open>
  The \<open>while (currentNodeId)\<close> loop.  \<open>history.unshift\<close> puts the message in front.
  A missing node makes \<open>currentNode?.parent\<close> undefined, which ends the loop.  The
  loop need not end on cyclic parent links: not returning is the value \<open>None\<close>.
\<close>

partial_function (option) history_loop ::
  "(string \<times> ConversationNode) list \<Rightarrow> string option \<Rightarrow> Message list \<Rightarrow> Message list option"
where
  "history_loop m currentNodeId history =
     (if truthy currentNodeId then
        (case map_of m (the currentNodeId) of
           None \<Rightarrow> Some history
         | Some currentNode \<Rightarrow>
             history_loop m (parent currentNode)
               (if has_parts currentNode then the (message currentNode) # history
                else history))
      else Some history)"

definition handleSelectConversation :: "Conversation \<Rightarrow> Message list option" where
  "handleSelectConversation conversation =
     history_loop (mapping conversation) (Some (current_node conversation)) []"

section \<open>Assistant classification (getAssistantFromConversation, App.tsx lines 70-105)\<close>

text \<open>
  The three tests \<open>includes('lester')\<close>, \<open>includes('osho')\<close>, \<open>includes('neville')\<close>, in
  this order, made on the lower-cased title (lines 73-75) and on the lower-cased text of
  a message (lines 96-98).
\<close>

definition known_name :: "string \<Rightarrow> string option" where
  "known_name s =
     (if str_includes s ''lester'' then Some ''Lester''
      else if str_includes s ''osho'' then Some ''Osho''
      else if str_includes s ''neville'' then Some ''Neville''
      else None)"

definition MAX_MESSAGES_TO_CHECK :: nat where
  "MAX_MESSAGES_TO_CHECK = 5"

text \<open>
  How one pass through the body of the \<open>while\<close> loop (lines 83-101) ends: with
  \<open>break\<close>, with the next iteration (by \<open>continue\<close> or by reaching the end of the body)
  on a new node id and counter, or with \<open>return\<close> of a name.
\<close>

datatype control = Break | Continue "string option" nat | Return string

definition classify_body ::
  "(string \<times> ConversationNode) list \<Rightarrow> string \<Rightarrow> nat \<Rightarrow> control"
where
  "classify_body m currentNodeId checkedMessages =
     (case map_of m currentNodeId of
        None \<Rightarrow> Break
      | Some node \<Rightarrow>
          (case message node of
             None \<Rightarrow> Continue (parent node) checkedMessages
           | Some msg \<Rightarrow>
               (case author msg of
                  None \<Rightarrow> Continue (parent node) checkedMessages
                | Some au \<Rightarrow>
                    (case content msg of
                       None \<Rightarrow> Continue (parent node) checkedMessages
                     | Some cnt \<Rightarrow>
                         (case parts cnt of
                            None \<Rightarrow> Continue (parent node) checkedMessages
                          | Some ps \<Rightarrow>
                              if role au = ''assistant'' then
                                (case known_name (toLowerCase (join '' '' ps)) of
                                   Some a \<Rightarrow> Return a
                                 | None \<Rightarrow> Continue (parent node) (checkedMessages + 1))
                              else Continue (parent node) checkedMessages)))))"

text \<open>The loop of line 82.  The inner \<open>None\<close> is the \<open>return null\<close> of line 104.\<close>

partial_function (option) classify_loop ::
  "(string \<times> ConversationNode) list \<Rightarrow> string option \<Rightarrow> nat \<Rightarrow> string option option"
where
  "classify_loop m currentNodeId checkedMessages =
     (if truthy currentNodeId \<and> checkedMessages < MAX_MESSAGES_TO_CHECK then
        (case classify_body m (the currentNodeId) checkedMessages of
           Break \<Rightarrow> Some None
         | Continue nxt c \<Rightarrow> classify_loop m nxt c
         | Return a \<Rightarrow> Some (Some a))
      else Some None)"

definition getAssistantFromConversation :: "Conversation \<Rightarrow> string option option" where
  "getAssistantFromConversation conversation =
     (case known_name (toLowerCase (title conversation)) of
        Some a \<Rightarrow> Some (Some a)
      | None \<Rightarrow> classify_loop (mapping conversation) (Some (current_node conversation)) 0)"

section \<open>The filtered view (the effect of App.tsx lines 155-180)\<close>

text \<open>
  \<open>Array.prototype.filter\<close> with a predicate that may not return: the predicate is
  called on every element in order.
\<close>

fun filter_opt :: "('a \<Rightarrow> bool option) \<Rightarrow> 'a list \<Rightarrow> 'a list option" where
  "filter_opt p [] = Some []"
| "filter_opt p (x # xs) =
     (case p x of
        None \<Rightarrow> None
      | Some b \<Rightarrow>
          (case filter_opt p xs of
             None \<Rightarrow> None
           | Some r \<Rightarrow> Some (if b then x # r else r)))"

text \<open>
  The state \<open>gpts\<close> is an object from assistant names to check marks, read with
  \<open>Object.entries\<close>.  The result is what the effect passes to \<open>setFilteredConversations\<close>.
\<close>

definition filterConversations ::
  "Conversation list \<Rightarrow> string \<Rightarrow> (string \<times> bool) list \<Rightarrow> Conversation list option"
where
  "filterConversations conversations searchTerm gpts =
     (let result =
            (if searchTerm \<noteq> [] then
               filter (\<lambda>c. str_includes (toLowerCase (title c)) (toLowerCase searchTerm))
                 conversations
             else conversations);
          selectedGpts = map fst (filter snd gpts)
      in if length selectedGpts > 0 then
           filter_opt
             (\<lambda>c. case getAssistantFromConversation c of
                     None \<Rightarrow> None
                   | Some assistant \<Rightarrow>
                       Some (case assistant of
                               None \<Rightarrow> False
                             | Some a \<Rightarrow> a \<in> set selectedGpts))
             result
         else Some result)"

section \<open>The summarizer (handlePromptSubmit, DeepSeekPanel.tsx lines 14-83)\<close>

subsection \<open>The prompt pattern (line 19)\<close>

text \<open>
  The regular expression \<open>/Sammanfatta alla (Lester|Osho|Neville)-konversationer om (.*)/i\<close>
  has no anchors, so \<open>String.prototype.match\<close> tries it at every position from the left
  and takes the first position where it matches.  The three names start with different
  letters, so at most one alternative matches at a position; the dot matches every
  character but a line terminator (line feed and carriage return, among 8-bit
  characters), and the star is greedy.  \<open>match_at\<close> is the match at the start of a
  string, \<open>alternative\<close> the length of the name that matches there.
\<close>

definition alternative :: "string \<Rightarrow> nat option" where
  "alternative r =
     (if startsWith (toLowerCase r) ''lester'' then Some 6
      else if startsWith (toLowerCase r) ''osho'' then Some 4
      else if startsWith (toLowerCase r) ''neville'' then Some 7
      else None)"

definition line_terminator :: "char \<Rightarrow> bool" where
  "line_terminator c = (c = CHR 0x0A \<or> c = CHR 0x0D)"

definition match_at :: "string \<Rightarrow> (string \<times> string) option" where
  "match_at s =
     (if startsWith (toLowerCase s) ''sammanfatta alla '' then
        (let r = drop 17 s
         in case alternative r of
              None \<Rightarrow> None
            | Some n \<Rightarrow>
                (let r' = drop n r
                 in if startsWith (toLowerCase r') ''-konversationer om '' then
                      Some (take n r, takeWhile (\<lambda>c. \<not> line_terminator c) (drop 19 r'))
                    else None))
      else None)"

fun regex_match :: "string \<Rightarrow> (string \<times> string) option" where
  "regex_match [] = match_at []"
| "regex_match (c # cs) =
     (case match_at (c # cs) of
        Some groups \<Rightarrow> Some groups
      | None \<Rightarrow> regex_match cs)"

definition usage_hint :: string where
  "usage_hint =
     ''Couldn'' @ [CHR 0x27] @ ''t understand the prompt. Use the format: '' @ [CHR 0x27] @
     ''Sammanfatta alla [Lester/Osho/Neville]-konversationer om [topic]'' @ [CHR 0x27]"

text \<open>Lines 19-27: the usage hint, or the captured name and topic.\<close>

definition interpret_prompt :: "string \<Rightarrow> string + (string \<times> string)" where
  "interpret_prompt prompt =
     (case regex_match prompt of
        None \<Rightarrow> Inl usage_hint
      | Some (gptName, topic) \<Rightarrow> Inr (gptName, topic))"

subsection \<open>Collecting the content (lines 29-43)\<close>

datatype error = TypeError

text \<open>
  The walk of lines 35-42.  Its condition tests the node and its message, and then reads
  \<open>node.message.content.parts.join('')\<close>: with the content or the parts missing, this
  property read raises a TypeError.
\<close>

partial_function (option) collect_loop ::
  "(string \<times> ConversationNode) list \<Rightarrow> string option \<Rightarrow> string \<Rightarrow> string \<Rightarrow>
   (error + string) option"
where
  "collect_loop m currentId topic contentToSummarize =
     (if truthy currentId then
        (case map_of m (the currentId) of
           None \<Rightarrow> Some (Inr contentToSummarize)
         | Some node \<Rightarrow>
             (case message node of
                None \<Rightarrow> collect_loop m (parent node) topic contentToSummarize
              | Some msg \<Rightarrow>
                  (case content msg of
                     None \<Rightarrow> Some (Inl TypeError)
                   | Some cnt \<Rightarrow>
                       (case parts cnt of
                          None \<Rightarrow> Some (Inl TypeError)
                        | Some ps \<Rightarrow>
                            collect_loop m (parent node) topic
                              (if str_includes (toLowerCase (join [] ps)) (toLowerCase topic)
                               then contentToSummarize @ join [] ps @ [CHR 0x0A, CHR 0x0A]
                               else contentToSummarize)))))
      else Some (Inr contentToSummarize))"

text \<open>The \<open>forEach\<close> of line 34: an exception of one walk ends it.\<close>

fun collect_all :: "Conversation list \<Rightarrow> string \<Rightarrow> string \<Rightarrow> (error + string) option" where
  "collect_all [] topic contentToSummarize = Some (Inr contentToSummarize)"
| "collect_all (convo # rest) topic contentToSummarize =
     (case collect_loop (mapping convo) (Some (current_node convo)) topic contentToSummarize of
        None \<Rightarrow> None
      | Some (Inl e) \<Rightarrow> Some (Inl e)
      | Some (Inr acc) \<Rightarrow> collect_all rest topic acc)"

definition relevantConversations :: "Conversation list \<Rightarrow> string \<Rightarrow> Conversation list" where
  "relevantConversations conversations gptName =
     filter (\<lambda>c. str_includes (toLowerCase (title c)) (toLowerCase gptName)) conversations"

text \<open>
  What \<open>handlePromptSubmit\<close> does with a prompt, up to the request to the remote API:
  it sets the response text, or posts the topic and the collected content.
\<close>

datatype submit_result = SetResponse string | PostToApi string string

definition handlePromptSubmit ::
  "Conversation list \<Rightarrow> string \<Rightarrow> string option \<Rightarrow> (error + submit_result) option"
where
  "handlePromptSubmit conversations prompt apiKey =
     (case interpret_prompt prompt of
        Inl hint \<Rightarrow> Some (Inr (SetResponse hint))
      | Inr (gptName, topic) \<Rightarrow>
          (case collect_all (relevantConversations conversations gptName) topic [] of
             None \<Rightarrow> None
           | Some (Inl e) \<Rightarrow> Some (Inl e)
           | Some (Inr contentToSummarize) \<Rightarrow>
               Some (Inr
                 (if contentToSummarize = [] then
                    SetResponse (''No content found for '' @ [CHR 0x27] @ topic @ [CHR 0x27] @
                                 '' in '' @ gptName @ '' conversations.'')
                  else if \<not> truthy apiKey then
                    SetResponse (''DeepSeek API key is missing. Please add it to your '' @
                                 ''.env.local file as VITE_DEEPSEEK_API_KEY.'')
                  else PostToApi topic contentToSummarize))))"

section \<open>Timestamps (formatDate, App.tsx lines 40-68)\<close>

text \<open>
  Numbers are rationals here: the rounding of double-precision arithmetic is not
  modelled.  A \<open>Date\<close> holds a time value, an integral number of milliseconds of
  magnitude at most 8.64e15, or is invalid (\<open>None\<close>): the constructor truncates its
  argument towards zero and rejects what is out of range.
\<close>

definition new_Date :: "rat \<Rightarrow> int option" where
  "new_Date v =
     (if \<bar>v\<bar> > 8640000000000000 then None
      else Some (if v \<ge> 0 then \<lfloor>v\<rfloor> else \<lceil>v\<rceil>))"

definition msPerDay :: int where
  "msPerDay = 86400000"

text \<open>The number of the first day of year \<open>y\<close>, counted from 1 January 1970.\<close>

definition DayFromYear :: "int \<Rightarrow> int" where
  "DayFromYear y =
     365 * (y - 1970) + (y - 1969) div 4 - (y - 1901) div 100 + (y - 1601) div 400"

text \<open>The year of a day is the largest \<open>y\<close> with \<open>DayFromYear y \<le> d\<close>, searched downwards.\<close>

function year_down :: "int \<Rightarrow> int \<Rightarrow> int" where
  "year_down d y = (if DayFromYear y \<le> d then y else year_down d (y - 1))"
  by pat_completeness auto
termination
proof (relation "measure (\<lambda>(d, y). nat (DayFromYear y - d))")
  show "wf (measure (\<lambda>(d, y). nat (DayFromYear y - d)))"
    by simp
next
  fix d y :: int
  assume above: "\<not> DayFromYear y \<le> d"
  have a: "(y - 1 - 1969) div 4 \<le> (y - 1969) div 4"
    by (rule zdiv_mono1) simp_all
  have "(y - 1901) div 100 \<le> (y - 1 - 1901 + 100) div 100"
    by (rule zdiv_mono1) simp_all
  then have b: "(y - 1901) div 100 \<le> (y - 1 - 1901) div 100 + 1"
    by simp
  have c: "(y - 1 - 1601) div 400 \<le> (y - 1601) div 400"
    by (rule zdiv_mono1) simp_all
  have "\<And>a a' b b' c c' :: int. a' \<le> a \<Longrightarrow> b \<le> b' + 1 \<Longrightarrow> c' \<le> c \<Longrightarrow>
          365 * (y - 1 - 1970) + a' - b' + c' < 365 * (y - 1970) + a - b + c"
    by simp
  from this [OF a b c] have "DayFromYear (y - 1) < DayFromYear y"
    by (simp only: DayFromYear_def)
  with above show "((d, y - 1), (d, y)) \<in> measure (\<lambda>(d, y). nat (DayFromYear y - d))"
    by simp
qed

declare year_down.simps [simp del]

definition YearFromTime :: "int \<Rightarrow> int" where
  "YearFromTime t =
     (let d = t div msPerDay
      in year_down d (1970 + (if d \<ge> 0 then d div 365 else 0)))"

text \<open>
  \<open>Date.prototype.getFullYear\<close> is the year of the local time; \<open>tza\<close> is the offset of
  the local time zone at a time value.  The year of an invalid date is NaN (\<open>None\<close>).
\<close>

definition getFullYear :: "(int \<Rightarrow> int) \<Rightarrow> int option \<Rightarrow> int option" where
  "getFullYear tza date = map_option (\<lambda>t. YearFromTime (t + tza t)) date"

text \<open>
  The result: the string \<open>'Ogiltigt datum'\<close>, or what \<open>toLocaleDateString\<close> makes of the
  date, which for an invalid date is the string \<open>'Invalid Date'\<close>.
\<close>

datatype formatted = Ogiltigt_datum | LocaleDateString "int option"

text \<open>Every comparison with NaN is false, so line 56 lets an invalid date pass.\<close>

definition formatDate :: "(int \<Rightarrow> int) \<Rightarrow> rat \<Rightarrow> formatted" where
  "formatDate tza timestamp =
     (let timestampInMs =
            (if timestamp < 10 ^ 10 then timestamp * 1000
             else if timestamp > 10 ^ 12 then timestamp / 1000
             else timestamp);
          date = new_Date timestampInMs
      in case getFullYear tza date of
           None \<Rightarrow> LocaleDateString date
         | Some y \<Rightarrow> if y < 2020 \<or> y > 2025 then Ogiltigt_datum else LocaleDateString date)"

section \<open>Application state and the persistent store (App.tsx lines 111-270)\<close>

text \<open>
  The two stores of the browser: the instance \<open>conversationsStore\<close>, keyed by
  conversation id, and the default instance, which holds the key
  \<open>cleanedConversationIds\<close> once it has been written.
\<close>

record Storage =
  conversationsStore :: "(string \<times> Conversation) list"
  stored_cleanedConversationIds :: "string list option"

record AppState =
  conversations :: "Conversation list"
  filteredConversations :: "Conversation list"
  selectedConversation :: "Conversation option"
  chatHistory :: "Message list"
  searchTerm :: string
  cleanedConversationIds :: "string list"
  syncStatus :: string
  deleteConfirmation :: "(string \<times> string) option"

definition initial_state :: AppState where
  "initial_state =
     \<lparr>conversations = [], filteredConversations = [], selectedConversation = None,
      chatHistory = [], searchTerm = [], cleanedConversationIds = [], syncStatus = [],
      deleteConfirmation = None\<rparr>"

text \<open>Lines 131-146, with \<open>data\<close> the parsed body of \<open>/conversations.json\<close>.\<close>

definition fetchConversations :: "Conversation list \<Rightarrow> AppState \<Rightarrow> AppState" where
  "fetchConversations data s = s\<lparr>conversations := data, filteredConversations := data\<rparr>"

text \<open>Lines 183-188.\<close>

definition loadCleanedIds :: "Storage \<Rightarrow> AppState \<Rightarrow> AppState" where
  "loadCleanedIds store s =
     (case stored_cleanedConversationIds store of
        None \<Rightarrow> s
      | Some ids \<Rightarrow> s\<lparr>cleanedConversationIds := ids\<rparr>)"

text \<open>A fresh load of the page: the initial state, then the effects that run once.\<close>

definition fresh_load :: "Storage \<Rightarrow> Conversation list \<Rightarrow> AppState" where
  "fresh_load store data = loadCleanedIds store (fetchConversations data initial_state)"

text \<open>Lines 238-241.\<close>

definition handleDeleteConversation :: "string \<Rightarrow> string \<Rightarrow> AppState \<Rightarrow> AppState" where
  "handleDeleteConversation i t s = s\<lparr>deleteConfirmation := Some (i, t)\<rparr>"

text \<open>\<open>removeItem\<close> of the store instance.\<close>

definition removeItem :: "string \<Rightarrow> (string \<times> 'a) list \<Rightarrow> (string \<times> 'a) list" where
  "removeItem k kvs = filter (\<lambda>kv. fst kv \<noteq> k) kvs"

text \<open>Lines 243-270, when the store accepts the removal.\<close>

definition confirmDelete :: "AppState \<times> Storage \<Rightarrow> AppState \<times> Storage" where
  "confirmDelete ss =
     (case ss of (s, store) \<Rightarrow>
        (case deleteConfirmation s of
           None \<Rightarrow> (s, store)
         | Some (i, t) \<Rightarrow>
             (let store' = store\<lparr>conversationsStore := removeItem i (conversationsStore store)\<rparr>;
                  newConversations = filter (\<lambda>c. id_conversation c \<noteq> i) (conversations s);
                  s1 = s\<lparr>conversations := newConversations,
                         filteredConversations :=
                           filter (\<lambda>c. str_includes (toLowerCase (title c))
                                         (toLowerCase (searchTerm s))) newConversations\<rparr>;
                  s2 = (if map_option id_conversation (selectedConversation s) = Some i
                        then s1\<lparr>selectedConversation := None, chatHistory := []\<rparr>
                        else s1);
                  s3 = s2\<lparr>syncStatus := ''Konversation \"'' @ t @ ''\" har tagits bort.''\<rparr>
              in (s3\<lparr>deleteConfirmation := None\<rparr>, store'))))"

section \<open>Notions of the specification\<close>

text \<open>
  \<open>parent_chain m cur ns\<close>: following parent links in \<open>m\<close> from the id \<open>cur\<close> visits
  exactly the nodes \<open>ns\<close>, tip first, and then ends, at an absent (or empty) id or at an
  id that \<open>m\<close> does not hold.  The length of \<open>ns\<close> is the depth of the chain.
\<close>

fun parent_chain ::
  "(string \<times> ConversationNode) list \<Rightarrow> string option \<Rightarrow> ConversationNode list \<Rightarrow> bool"
where
  "parent_chain m cur [] = (\<not> truthy cur \<or> map_of m (the cur) = None)"
| "parent_chain m cur (n # ns) =
     (truthy cur \<and> map_of m (the cur) = Some n \<and> parent_chain m (parent n) ns)"

text \<open>A well-formed message, in the words of the specification: author, content, at least one part.\<close>

definition well_formed :: "ConversationNode \<Rightarrow> bool" where
  "well_formed node =
     (case message node of
        None \<Rightarrow> False
      | Some msg \<Rightarrow>
          author msg \<noteq> None \<and>
          (case content msg of
             None \<Rightarrow> False
           | Some cnt \<Rightarrow> (case parts cnt of None \<Rightarrow> False | Some ps \<Rightarrow> ps \<noteq> [])))"

text \<open>
  The text the classifier inspects at a node: the lower-cased parts, joined by blanks, of
  a message that has an author of role \<open>assistant\<close>, a content and a parts array.
\<close>

definition assistant_text :: "ConversationNode \<Rightarrow> string option" where
  "assistant_text node =
     (case message node of
        None \<Rightarrow> None
      | Some msg \<Rightarrow>
          (case (author msg, content msg) of
             (Some au, Some cnt) \<Rightarrow>
               (case parts cnt of
                  None \<Rightarrow> None
                | Some ps \<Rightarrow>
                    if role au = ''assistant'' then Some (toLowerCase (join '' '' ps))
                    else None)
           | _ \<Rightarrow> None))"

text \<open>The name of the first text, in order, that mentions a known name.\<close>

fun first_known :: "string list \<Rightarrow> string option" where
  "first_known [] = None"
| "first_known (t # ts) = (case known_name t of Some a \<Rightarrow> Some a | None \<Rightarrow> first_known ts)"



text \<open>
  The links a walk follows: from a non-empty id that the mapping holds to the non-empty
  parent id of its node.  \<open>no_cycle m cur\<close>: no id that these links reach from \<open>cur\<close>
  lies on a cycle of them.
\<close>

definition parent_links :: "(string \<times> ConversationNode) list \<Rightarrow> (string \<times> string) set" where
  "parent_links m =
     {(k, p). k \<noteq> [] \<and> p \<noteq> [] \<and> (\<exists>n. map_of m k = Some n \<and> parent n = Some p)}"

definition no_cycle :: "(string \<times> ConversationNode) list \<Rightarrow> string \<Rightarrow> bool" where
  "no_cycle m cur =
     (\<forall>k. (cur, k) \<in> (parent_links m)\<^sup>* \<longrightarrow> (k, k) \<notin> (parent_links m)\<^sup>+)"

text \<open>
  The fixed pattern, as the specification has it: the whole input is the words
  \<open>Sammanfatta alla\<close>, one of the three names, \<open>-konversationer om\<close> and a topic that
  runs to the end of the input, letter case ignored.
\<close>

definition is_pattern :: "string \<Rightarrow> bool" where
  "is_pattern p =
     (\<exists>name \<in> {''lester'', ''osho'', ''neville''}.
        startsWith (toLowerCase p) (''sammanfatta alla '' @ name @ ''-konversationer om ''))"

definition prompt_embedded :: string where
  "prompt_embedded = ''Now: Sammanfatta alla Lester-konversationer om fear''"

definition prompt_twice :: string where
  "prompt_twice =
     ''Sammanfatta alla Neville-konversationer om Sammanfatta alla Osho-konversationer om joy''"

definition prompt_two_lines :: string where
  "prompt_two_lines = ''sammanfatta ALLA osho-konversationer om love'' @ [CHR 0x0A] @ ''and more''"

section \<open>Example data\<close>

definition mk_message :: "string \<Rightarrow> string \<Rightarrow> string list \<Rightarrow> Message" where
  "mk_message i r ps =
     \<lparr>id_message = i, author = Some \<lparr>role = r\<rparr>,
      content = Some \<lparr>content_type = ''text'', parts = Some ps\<rparr>\<rparr>"

definition mk_node :: "string \<Rightarrow> Message option \<Rightarrow> string option \<Rightarrow> ConversationNode" where
  "mk_node i msg p = \<lparr>id_node = i, message = msg, parent = p, children = []\<rparr>"

definition msg_root :: Message where
  "msg_root = mk_message ''m1'' ''user'' [''hello'']"

definition msg_tip :: Message where
  "msg_tip = mk_message ''m2'' ''assistant'' [''hi'', ''there'']"

definition two_chain :: "(string \<times> ConversationNode) list" where
  "two_chain =
     [(''a'', mk_node ''a'' (Some msg_root) None),
      (''b'', mk_node ''b'' (Some msg_tip) (Some ''a''))]"

text \<open>A message without an author whose content has one part.\<close>

definition msg_anonymous :: Message where
  "msg_anonymous =
     \<lparr>id_message = ''m0'', author = None,
      content = Some \<lparr>content_type = ''text'', parts = Some [''orphan'']\<rparr>\<rparr>"

definition conv_anonymous :: Conversation where
  "conv_anonymous =
     \<lparr>id_conversation = ''c0'', title = ''untitled'', create_time = 1700000000,
      mapping = [(''a'', mk_node ''a'' (Some msg_anonymous) None)],
      current_node = ''a''\<rparr>"

text \<open>
  A thread whose second assistant message, counted from the tip, is the first to name
  an assistant, with a user message between the two.
\<close>

definition nodes_second :: "ConversationNode list" where
  "nodes_second =
     [mk_node ''n1'' (Some (mk_message ''m1'' ''assistant'' [''Welcome'', ''back''])) (Some ''n2''),
      mk_node ''n2'' (Some (mk_message ''m2'' ''user'' [''Who is speaking?''])) (Some ''n3''),
      mk_node ''n3'' (Some (mk_message ''m3'' ''assistant'' [''Neville here''])) None]"

definition conv_second :: Conversation where
  "conv_second =
     \<lparr>id_conversation = ''c2'', title = ''Morning talk'', create_time = 1700000000,
      mapping = map (\<lambda>n. (id_node n, n)) nodes_second, current_node = ''n1''\<rparr>"

text \<open>A thread of six assistant messages of which only the sixth names an assistant.\<close>

definition nodes_sixth :: "ConversationNode list" where
  "nodes_sixth =
     [mk_node ''n1'' (Some (mk_message ''m1'' ''assistant'' [''one''])) (Some ''n2''),
      mk_node ''n2'' (Some (mk_message ''m2'' ''assistant'' [''two''])) (Some ''n3''),
      mk_node ''n3'' (Some (mk_message ''m3'' ''assistant'' [''three''])) (Some ''n4''),
      mk_node ''n4'' (Some (mk_message ''m4'' ''assistant'' [''four''])) (Some ''n5''),
      mk_node ''n5'' (Some (mk_message ''m5'' ''assistant'' [''five''])) (Some ''n6''),
      mk_node ''n6'' (Some (mk_message ''m6'' ''assistant'' [''Neville here''])) None]"

definition conv_sixth :: Conversation where
  "conv_sixth =
     \<lparr>id_conversation = ''c6'', title = ''Evening talk'', create_time = 1700000000,
      mapping = map (\<lambda>n. (id_node n, n)) nodes_sixth, current_node = ''n1''\<rparr>"


text \<open>A message without parts in front of an assistant message.\<close>

definition msg_no_parts :: Message where
  "msg_no_parts =
     \<lparr>id_message = ''m1'', author = Some \<lparr>role = ''assistant''\<rparr>,
      content = Some \<lparr>content_type = ''text'', parts = None\<rparr>\<rparr>"

definition partless :: "(string \<times> ConversationNode) list" where
  "partless =
     [(''a'', mk_node ''a'' (Some msg_no_parts) (Some ''b'')),
      (''b'', mk_node ''b'' (Some (mk_message ''m2'' ''assistant'' [''Osho said''])) None)]"

text \<open>Five conversations; the last one names its assistant in a message only.\<close>

definition mk_conversation ::
  "string \<Rightarrow> string \<Rightarrow> (string \<times> ConversationNode) list \<Rightarrow> string \<Rightarrow> Conversation"
where
  "mk_conversation i t m cur =
     \<lparr>id_conversation = i, title = t, create_time = 1700000000, mapping = m,
      current_node = cur\<rparr>"

definition five_conversations :: "Conversation list" where
  "five_conversations =
     [mk_conversation ''k1'' ''Osho on love'' [] ''x'',
      mk_conversation ''k2'' ''Lester on love'' [] ''x'',
      mk_conversation ''k3'' ''Love letters'' [] ''x'',
      mk_conversation ''k4'' ''OSHO and silence'' [] ''x'',
      mk_conversation ''k5'' ''More LOVE'' partless ''a'']"

text \<open>A title with a Latin-1 letter: \<open>Osho\<close>, a blank, and \<open>lskar\<close> after a-umlaut (228).\<close>

definition conv_latin1 :: Conversation where
  "conv_latin1 = mk_conversation ''k7'' (''Osho '' @ CHR 0xE4 # ''lskar'') [] ''x''"

text \<open>A conversation about Lester whose only message has no content.\<close>

definition msg_no_content :: Message where
  "msg_no_content = \<lparr>id_message = ''m1'', author = Some \<lparr>role = ''assistant''\<rparr>, content = None\<rparr>"

definition conv_no_content :: Conversation where
  "conv_no_content =
     mk_conversation ''k6'' ''Lester on fear'' [(''a'', mk_node ''a'' (Some msg_no_content) None)] ''a''"

definition empty_storage :: Storage where
  "empty_storage = \<lparr>conversationsStore = [], stored_cleanedConversationIds = None\<rparr>"

section \<open>Thread reconstruction: results\<close>

text \<open>The facts that evaluate \<open>toLowerCase\<close> on a string literal.\<close>

lemmas lower_simps = toLowerCase_def toLowerCase_char_def char_of_def bit_Suc_0_iff

lemma has_parts_if_well_formed: "well_formed n \<Longrightarrow> has_parts n"
  by (auto simp: well_formed_def has_parts_def split: option.splits)

lemma history_loop_chain:
  "parent_chain m cur ns \<Longrightarrow>
   history_loop m cur acc = Some (rev (map (\<lambda>n. the (message n)) (filter has_parts ns)) @ acc)"
proof (induction ns arbitrary: cur acc)
  case Nil
  then show ?case
    by (subst history_loop.simps) (auto split: option.splits)
next
  case (Cons n ns)
  from Cons.prems have t: "truthy cur" and l: "map_of m (the cur) = Some n"
    and c: "parent_chain m (parent n) ns"
    by simp_all
  show ?case
    by (subst history_loop.simps) (simp add: t l Cons.IH [OF c])
qed

text \<open>
  C1.  If the parent chain from \<open>current_node\<close> visits the \<open>N\<close> nodes \<open>ns\<close> (tip first)
  and every one of them has a well-formed message, the reconstruction returns, and
  returns exactly these \<open>N\<close> messages, the root's first and the tip's last.
\<close>

theorem reconstruct_chain_root_to_tip:
  assumes "parent_chain (mapping c) (Some (current_node c)) ns"
    and "\<forall>n \<in> set ns. well_formed n"
  shows "\<exists>h. handleSelectConversation c = Some h \<and> length h = length ns \<and>
             h = rev (map (\<lambda>n. the (message n)) ns)"
proof -
  from assms(2) have "filter has_parts ns = ns"
    by (auto simp: has_parts_if_well_formed intro: filter_True)
  with history_loop_chain [OF assms(1), of "[]"] show ?thesis
    by (simp add: handleSelectConversation_def)
qed

theorem reconstruct_chain_root_to_tip_witness:
  "handleSelectConversation
     \<lparr>id_conversation = ''c1'', title = ''t'', create_time = 1700000000,
      mapping = two_chain, current_node = ''b''\<rparr> = Some [msg_root, msg_tip]"
proof -
  let ?c = "\<lparr>id_conversation = ''c1'', title = ''t'', create_time = 1700000000,
      mapping = two_chain, current_node = ''b''\<rparr>"
  let ?ns = "[mk_node ''b'' (Some msg_tip) (Some ''a''), mk_node ''a'' (Some msg_root) None]"
  have ch: "parent_chain (mapping ?c) (Some (current_node ?c)) ?ns"
    by (simp add: two_chain_def mk_node_def)
  have wf: "\<forall>n \<in> set ?ns. well_formed n"
    by (simp add: well_formed_def mk_node_def msg_root_def msg_tip_def mk_message_def)
  from reconstruct_chain_root_to_tip [OF ch wf] show ?thesis
    by (simp add: mk_node_def)
qed

text \<open>
  C6.  The reconstruction does not look at the author: a message that has content with
  one part and no author is put into the history, where the specification has it skipped.
\<close>

theorem reconstruct_keeps_message_without_author:
  "\<not> well_formed (mk_node ''a'' (Some msg_anonymous) None) \<and>
   handleSelectConversation conv_anonymous = Some [msg_anonymous]"
proof -
  have "history_loop [(''a'', mk_node ''a'' (Some msg_anonymous) None)] (Some ''a'') []
        = Some [msg_anonymous]"
    by (subst history_loop.simps, subst history_loop.simps)
       (simp add: mk_node_def has_parts_def msg_anonymous_def)
  then show ?thesis
    by (simp add: handleSelectConversation_def conv_anonymous_def well_formed_def
        mk_node_def msg_anonymous_def)
qed

section \<open>Assistant classification: results\<close>

lemma classify_body_absent: "map_of m k = None \<Longrightarrow> classify_body m k c = Break"
  by (simp add: classify_body_def)

lemma classify_body_other:
  "map_of m k = Some n \<Longrightarrow> assistant_text n = None \<Longrightarrow> classify_body m k c = Continue (parent n) c"
  by (auto simp: classify_body_def assistant_text_def split: option.splits if_splits)

lemma classify_body_assistant:
  "map_of m k = Some n \<Longrightarrow> assistant_text n = Some t \<Longrightarrow>
   classify_body m k c = (case known_name t of Some a \<Rightarrow> Return a | None \<Rightarrow> Continue (parent n) (c + 1))"
  by (auto simp: classify_body_def assistant_text_def split: option.splits if_splits)

lemma classify_loop_chain:
  "parent_chain m cur ns \<Longrightarrow>
   classify_loop m cur c =
     Some (first_known (take (MAX_MESSAGES_TO_CHECK - c) (List.map_filter assistant_text ns)))"
proof (induction ns arbitrary: cur c)
  case Nil
  then show ?case
    by (subst classify_loop.simps) (auto simp: classify_body_absent map_filter_simps)
next
  case (Cons n ns)
  from Cons.prems have t: "truthy cur" and l: "map_of m (the cur) = Some n"
    and ch: "parent_chain m (parent n) ns"
    by simp_all
  show ?case
  proof (cases "c < MAX_MESSAGES_TO_CHECK")
    case False
    then show ?thesis
      by (subst classify_loop.simps) simp
  next
    case True
    show ?thesis
    proof (cases "assistant_text n")
      case None
      then show ?thesis
        by (subst classify_loop.simps)
           (simp add: t True classify_body_other [OF l None] Cons.IH [OF ch] map_filter_simps)
    next
      case (Some t0)
      note at = Some
      have body: "classify_body m (the cur) c =
          (case known_name t0 of Some a \<Rightarrow> Return a | None \<Rightarrow> Continue (parent n) (c + 1))"
        by (rule classify_body_assistant [OF l Some])
      have mf: "List.map_filter assistant_text (n # ns) = t0 # List.map_filter assistant_text ns"
        by (simp add: map_filter_simps at)
      from True obtain j where j: "MAX_MESSAGES_TO_CHECK - c = Suc j"
        and j': "MAX_MESSAGES_TO_CHECK - Suc c = j"
        by (cases "MAX_MESSAGES_TO_CHECK - c") auto
      show ?thesis
      proof (cases "known_name t0")
        case None
        then show ?thesis
          by (subst classify_loop.simps) (simp add: t True body at j Cons.IH [OF ch] j')
      next
        case (Some a)
        then show ?thesis
          by (subst classify_loop.simps) (simp add: t True body at j)
      qed
    qed
  qed
qed


text \<open>
  C2.  With no known name in the title and a parent chain \<open>ns\<close> from \<open>current_node\<close>, the
  classification is decided by the first five assistant-authored texts of the chain, in
  walk order, and by nothing else: nodes of other roles are passed over without being
  counted.  So a first mention of Neville in the second assistant message gives
  \<open>Neville\<close>, and a mention that first appears in the sixth gives no name.
\<close>

theorem classify_first_five_assistant_messages:
  assumes "known_name (toLowerCase (title c)) = None"
    and "parent_chain (mapping c) (Some (current_node c)) ns"
  shows "getAssistantFromConversation c =
           Some (first_known (take 5 (List.map_filter assistant_text ns))) \<and>
         (2 \<le> length (List.map_filter assistant_text ns) \<and>
          known_name (List.map_filter assistant_text ns ! 0) = None \<and>
          str_includes (List.map_filter assistant_text ns ! 1) ''neville'' \<and>
          \<not> str_includes (List.map_filter assistant_text ns ! 1) ''lester'' \<and>
          \<not> str_includes (List.map_filter assistant_text ns ! 1) ''osho'' \<longrightarrow>
          getAssistantFromConversation c = Some (Some ''Neville'')) \<and>
         ((\<forall>t \<in> set (take 5 (List.map_filter assistant_text ns)). known_name t = None) \<longrightarrow>
          getAssistantFromConversation c = Some None)"
proof -
  let ?ts = "List.map_filter assistant_text ns"
  have eq: "getAssistantFromConversation c = Some (first_known (take 5 ?ts))"
    using classify_loop_chain [OF assms(2), of 0]
    by (simp add: getAssistantFromConversation_def assms(1) MAX_MESSAGES_TO_CHECK_def)
  have none: "first_known ts = None" if "\<forall>t \<in> set ts. known_name t = None" for ts
    using that by (induction ts) simp_all
  have second: "first_known (take 5 ?ts) = Some ''Neville''"
    if "2 \<le> length ?ts" "known_name (?ts ! 0) = None" "str_includes (?ts ! 1) ''neville''"
      "\<not> str_includes (?ts ! 1) ''lester''" "\<not> str_includes (?ts ! 1) ''osho''"
  proof -
    from that(1) obtain t0 t1 rest where ts: "?ts = t0 # t1 # rest"
      by (cases ?ts; cases "tl ?ts") auto
    with that(2-) show ?thesis
      by (simp add: known_name_def)
  qed
  from eq none second show ?thesis
    by simp
qed

theorem classify_first_five_assistant_messages_witness:
  "getAssistantFromConversation conv_second = Some (Some ''Neville'') \<and>
   getAssistantFromConversation conv_sixth = Some None"
proof -
  have t2: "known_name (toLowerCase (title conv_second)) = None"
    by (simp add: conv_second_def known_name_def lower_simps)
  have c2: "parent_chain (mapping conv_second) (Some (current_node conv_second)) nodes_second"
    by (simp add: conv_second_def nodes_second_def mk_node_def)
  have t6: "known_name (toLowerCase (title conv_sixth)) = None"
    by (simp add: conv_sixth_def known_name_def lower_simps)
  have c6: "parent_chain (mapping conv_sixth) (Some (current_node conv_sixth)) nodes_sixth"
    by (simp add: conv_sixth_def nodes_sixth_def mk_node_def)
  have x2: "List.map_filter assistant_text nodes_second = [''welcome back'', ''neville here'']"
    by (simp add: nodes_second_def map_filter_simps assistant_text_def mk_node_def
        mk_message_def lower_simps)
  have x6: "List.map_filter assistant_text nodes_sixth =
              [''one'', ''two'', ''three'', ''four'', ''five'', ''neville here'']"
    by (simp add: nodes_sixth_def map_filter_simps assistant_text_def mk_node_def
        mk_message_def lower_simps)
  from classify_first_five_assistant_messages [OF t2 c2]
  have "getAssistantFromConversation conv_second = Some (Some ''Neville'')"
    by (simp add: x2 known_name_def)
  moreover from classify_first_five_assistant_messages [OF t6 c6]
  have "getAssistantFromConversation conv_sixth = Some None"
    by (simp add: x6 known_name_def)
  ultimately show ?thesis
    by simp
qed






section \<open>The walks return on acyclic parent links\<close>

lemma parent_links_finite: "finite (parent_links m)"
proof -
  have "parent_links m \<subseteq> (\<lambda>(k, n). (k, the (parent n))) ` set m"
  proof
    fix x
    assume "x \<in> parent_links m"
    then obtain k p n where x: "x = (k, p)" and l: "map_of m k = Some n"
      and q: "parent n = Some p"
      by (auto simp: parent_links_def)
    from l have "(k, n) \<in> set m"
      by (rule map_of_SomeD)
    moreover from x q have "x = (\<lambda>(k, n). (k, the (parent n))) (k, n)"
      by simp
    ultimately show "x \<in> (\<lambda>(k, n). (k, the (parent n))) ` set m"
      by (rule rev_image_eqI)
  qed
  then show ?thesis
    by (rule finite_subset) simp
qed

lemma no_cycle_induct [consumes 1, case_names step]:
  assumes nc: "no_cycle m cur"
    and step: "\<And>k. (cur, k) \<in> (parent_links m)\<^sup>* \<Longrightarrow>
                  (\<And>p. (k, p) \<in> parent_links m \<Longrightarrow> P p) \<Longrightarrow> P k"
  shows "P cur"
proof -
  let ?E = "parent_links m"
  define R where "R = {(p, k). (k, p) \<in> ?E \<and> (cur, k) \<in> ?E\<^sup>*}"
  have sub: "R \<subseteq> ?E\<inverse>"
    by (auto simp: R_def)
  have "finite R"
    using sub by (rule finite_subset) (simp add: parent_links_finite)
  moreover have "acyclic R"
  proof (rule acyclicI, rule allI, rule notI)
    fix x
    assume xx: "(x, x) \<in> R\<^sup>+"
    then have "(x, x) \<in> (?E\<inverse>)\<^sup>+"
      using sub trancl_mono by blast
    then have cyc: "(x, x) \<in> ?E\<^sup>+"
      by (simp add: trancl_converse)
    from xx obtain y where "(y, x) \<in> R"
      by (auto elim: tranclE)
    then have "(cur, x) \<in> ?E\<^sup>*"
      by (simp add: R_def)
    with nc cyc show False
      by (simp add: no_cycle_def)
  qed
  ultimately have "wf R"
    by (rule finite_acyclic_wf)
  then have "(cur, k) \<in> ?E\<^sup>* \<longrightarrow> P k" for k
  proof (induction k rule: wf_induct_rule)
    case (less k)
    show ?case
    proof
      assume r: "(cur, k) \<in> ?E\<^sup>*"
      show "P k"
      proof (rule step [OF r])
        fix p
        assume e: "(k, p) \<in> ?E"
        with r have "(p, k) \<in> R" and "(cur, p) \<in> ?E\<^sup>*"
          by (auto simp: R_def)
        with less.IH show "P p"
          by blast
      qed
    qed
  qed
  then show ?thesis
    by blast
qed

lemma links_step:
  assumes "k \<noteq> []" and "map_of m k = Some n" and "parent n = Some p" and "p \<noteq> []"
  shows "(k, p) \<in> parent_links m"
  using assms by (auto simp: parent_links_def)

lemma history_loop_returns:
  assumes "no_cycle m cur"
  shows "\<exists>h. history_loop m (Some cur) acc = Some h"
  using assms
proof (induction arbitrary: acc rule: no_cycle_induct)
  case (step k)
  show ?case
  proof (cases "k \<noteq> [] \<and> map_of m k \<noteq> None")
    case False
    then show ?thesis
      by (subst history_loop.simps) auto
  next
    case True
    then obtain n where k: "k \<noteq> []" and l: "map_of m k = Some n"
      by auto
    let ?acc = "if has_parts n then the (message n) # acc else acc"
    have unfold: "history_loop m (Some k) acc = history_loop m (parent n) ?acc"
      by (subst history_loop.simps) (simp add: k l)
    show ?thesis
    proof (cases "truthy (parent n)")
      case False
      then show ?thesis
        unfolding unfold by (subst history_loop.simps) simp
    next
      case True
      then obtain p where p: "parent n = Some p" "p \<noteq> []"
        by (cases "parent n") auto
      from step.IH [OF links_step [OF k l p], of ?acc] show ?thesis
        unfolding unfold p(1) .
    qed
  qed
qed

lemma classify_body_Continue:
  "classify_body m k c = Continue nxt c' \<Longrightarrow> \<exists>n. map_of m k = Some n \<and> parent n = nxt"
  by (auto simp: classify_body_def split: option.splits if_splits)

lemma classify_loop_returns:
  assumes "no_cycle m cur"
  shows "\<exists>r. classify_loop m (Some cur) c = Some r"
  using assms
proof (induction arbitrary: c rule: no_cycle_induct)
  case (step k)
  show ?case
  proof (cases "k \<noteq> [] \<and> c < MAX_MESSAGES_TO_CHECK")
    case False
    then show ?thesis
      by (subst classify_loop.simps) auto
  next
    case True
    show ?thesis
    proof (cases "classify_body m k c")
      case Break
      with True show ?thesis
        by (subst classify_loop.simps) simp
    next
      case (Return a)
      with True show ?thesis
        by (subst classify_loop.simps) simp
    next
      case (Continue nxt c')
      then obtain n where l: "map_of m k = Some n" and q: "parent n = nxt"
        by (auto dest: classify_body_Continue)
      have unfold: "classify_loop m (Some k) c = classify_loop m nxt c'"
        by (subst classify_loop.simps) (simp add: True Continue)
      show ?thesis
      proof (cases "truthy nxt")
        case False
        then show ?thesis
          unfolding unfold by (subst classify_loop.simps) simp
      next
        case True
        then obtain p where p: "nxt = Some p" "p \<noteq> []"
          by (cases nxt) auto
        from \<open>k \<noteq> [] \<and> c < MAX_MESSAGES_TO_CHECK\<close> l q p
        have "(k, p) \<in> parent_links m"
          by (simp add: links_step)
        from step.IH [OF this, of c'] show ?thesis
          unfolding unfold p(1) .
      qed
    qed
  qed
qed

lemma collect_loop_returns:
  assumes "no_cycle m cur"
  shows "\<exists>r. collect_loop m (Some cur) topic acc = Some r"
  using assms
proof (induction arbitrary: acc rule: no_cycle_induct)
  case (step k)
  have stop: "\<exists>r. collect_loop m nxt topic a = Some r"
    if "nxt = parent n" "k \<noteq> []" "map_of m k = Some n" for nxt n a
  proof (cases "truthy nxt")
    case False
    then show ?thesis
      by (subst collect_loop.simps) simp
  next
    case True
    then obtain p where p: "nxt = Some p" "p \<noteq> []"
      by (cases nxt) auto
    with that have "(k, p) \<in> parent_links m"
      by (simp add: links_step)
    from step.IH [OF this, of a] show ?thesis
      unfolding p(1) .
  qed
  show ?case
  proof (cases "k \<noteq> [] \<and> map_of m k \<noteq> None")
    case False
    then show ?thesis
      by (subst collect_loop.simps) auto
  next
    case True
    then obtain n where k: "k \<noteq> []" and l: "map_of m k = Some n"
      by auto
    show ?thesis
      by (subst collect_loop.simps)
         (auto simp: k l stop [OF refl k l] split: option.splits)
  qed
qed

lemma parent_chain_unique:
  "parent_chain m cur ns \<Longrightarrow> parent_chain m cur ns' \<Longrightarrow> ns = ns'"
proof (induction ns arbitrary: cur ns')
  case Nil
  then show ?case
    by (cases ns') auto
next
  case (Cons n ns)
  then show ?case
    by (cases ns') auto
qed

lemma parent_chain_link:
  assumes "(k, p) \<in> parent_links m" and "parent_chain m (Some k) ns"
  shows "\<exists>ns'. parent_chain m (Some p) ns' \<and> length ns' < length ns"
proof -
  from assms(1) obtain n where "k \<noteq> []" "map_of m k = Some n" "parent n = Some p"
    by (auto simp: parent_links_def)
  with assms(2) show ?thesis
    by (cases ns) auto
qed

lemma parent_chain_trancl:
  assumes "(k, k') \<in> (parent_links m)\<^sup>+" and "parent_chain m (Some k) ns"
  shows "\<exists>ns'. parent_chain m (Some k') ns' \<and> length ns' < length ns"
  using assms
proof (induction rule: trancl_induct)
  case (base p)
  then show ?case
    by (rule parent_chain_link)
next
  case (step p q)
  then obtain ns' where "parent_chain m (Some p) ns'" "length ns' < length ns"
    by blast
  with parent_chain_link [OF step.hyps(2)] show ?case
    by (meson less_trans)
qed

lemma parent_chain_no_cycle:
  assumes "parent_chain m (Some cur) ns"
  shows "no_cycle m cur"
  unfolding no_cycle_def
proof (intro allI impI notI)
  fix k
  assume "(cur, k) \<in> (parent_links m)\<^sup>*" and cyc: "(k, k) \<in> (parent_links m)\<^sup>+"
  then have "cur = k \<or> (cur, k) \<in> (parent_links m)\<^sup>+"
    by (auto simp: rtrancl_eq_or_trancl)
  with assms obtain ns' where c: "parent_chain m (Some k) ns'"
    using parent_chain_trancl by blast
  from parent_chain_trancl [OF cyc c] obtain ns''
    where "parent_chain m (Some k) ns''" "length ns'' < length ns'"
    by blast
  with c show False
    by (auto dest: parent_chain_unique)
qed

text \<open>
  C10.  If the parent links that can be reached from \<open>current_node\<close> form no cycle, each of
  the three walks returns: the reconstruction of the thread, the classification, and the
  summarizer's collection of content (which may return by raising its TypeError).
\<close>

theorem walks_return_without_cycle:
  assumes "no_cycle (mapping c) (current_node c)"
  shows "(\<exists>h. handleSelectConversation c = Some h) \<and>
         (\<exists>a. getAssistantFromConversation c = Some a) \<and>
         (\<exists>r. collect_loop (mapping c) (Some (current_node c)) topic acc = Some r)"
proof (intro conjI)
  show "\<exists>h. handleSelectConversation c = Some h"
    unfolding handleSelectConversation_def by (rule history_loop_returns [OF assms])
  show "\<exists>a. getAssistantFromConversation c = Some a"
    using classify_loop_returns [OF assms, of 0]
    by (simp add: getAssistantFromConversation_def split: option.splits)
  show "\<exists>r. collect_loop (mapping c) (Some (current_node c)) topic acc = Some r"
    by (rule collect_loop_returns [OF assms])
qed

theorem walks_return_without_cycle_witness:
  "(\<exists>h. handleSelectConversation conv_second = Some h) \<and>
   (\<exists>a. getAssistantFromConversation conv_second = Some a) \<and>
   (\<exists>r. collect_loop (mapping conv_second) (Some (current_node conv_second)) ''neville'' []
          = Some r)"
proof -
  have "parent_chain (mapping conv_second) (Some (current_node conv_second)) nodes_second"
    by (simp add: conv_second_def nodes_second_def mk_node_def)
  then have "no_cycle (mapping conv_second) (current_node conv_second)"
    by (rule parent_chain_no_cycle)
  then show ?thesis
    by (rule walks_return_without_cycle)
qed

section \<open>The filtered view: results\<close>

text \<open>\<open>str_includes\<close> is the substring relation.\<close>

lemma startsWith_iff: "startsWith s p = (\<exists>r. s = p @ r)"
  by (induction s p rule: startsWith.induct) auto

lemma str_includes_iff: "str_includes s sub = (\<exists>pre suf. s = pre @ sub @ suf)"
proof (induction s)
  case Nil
  then show ?case by auto
next
  case (Cons c cs)
  have "(\<exists>pre suf. c # cs = pre @ sub @ suf) =
        ((\<exists>suf. c # cs = sub @ suf) \<or> (\<exists>pre suf. cs = pre @ sub @ suf))"
  proof
    assume "\<exists>pre suf. c # cs = pre @ sub @ suf"
    then obtain pre suf where d: "c # cs = pre @ sub @ suf"
      by blast
    show "(\<exists>suf. c # cs = sub @ suf) \<or> (\<exists>pre suf. cs = pre @ sub @ suf)"
    proof (cases pre)
      case Nil
      with d show ?thesis by auto
    next
      case (Cons x pre')
      with d have "cs = pre' @ sub @ suf" by simp
      then show ?thesis by blast
    qed
  next
    assume "(\<exists>suf. c # cs = sub @ suf) \<or> (\<exists>pre suf. cs = pre @ sub @ suf)"
    then show "\<exists>pre suf. c # cs = pre @ sub @ suf"
    proof
      assume "\<exists>suf. c # cs = sub @ suf"
      then obtain suf where "c # cs = [] @ sub @ suf" by auto
      then show ?thesis by blast
    next
      assume "\<exists>pre suf. cs = pre @ sub @ suf"
      then obtain pre suf where "c # cs = (c # pre) @ sub @ suf" by auto
      then show ?thesis by blast
    qed
  qed
  with Cons.IH show ?case
    by (simp add: startsWith_iff)
qed

lemma filter_opt_total:
  "\<forall>x \<in> set xs. \<exists>b. p x = Some b \<Longrightarrow> filter_opt p xs = Some (filter (\<lambda>x. p x = Some True) xs)"
  by (induction xs) auto

text \<open>
  C3.  On conversations whose parent links have no cycle, the filtered view is the input
  list restricted, in its order, to the conversations that pass every active criterion:
  the lower-cased title contains the lower-cased search term, when the term is not
  empty; the classification gives a name that is among the checked ones, when a name
  is checked (so a conversation without classification is dropped then).
\<close>

theorem filter_keeps_matching_in_order:
  assumes "\<forall>c \<in> set all. no_cycle (mapping c) (current_node c)"
  shows "filterConversations all search gpts =
           Some (filter
                   (\<lambda>c. (search \<noteq> [] \<longrightarrow>
                            str_includes (toLowerCase (title c)) (toLowerCase search)) \<and>
                         (map fst (filter snd gpts) \<noteq> [] \<longrightarrow>
                            (\<exists>a \<in> set (map fst (filter snd gpts)).
                               getAssistantFromConversation c = Some (Some a))))
                   all)"
proof -
  define sel where "sel = map fst (filter snd gpts)"
  let ?p = "\<lambda>c. case getAssistantFromConversation c of
                   None \<Rightarrow> None
                 | Some assistant \<Rightarrow>
                     Some (case assistant of None \<Rightarrow> False | Some a \<Rightarrow> a \<in> set sel)"
  have ret: "\<exists>r. getAssistantFromConversation c = Some r" if "c \<in> set all" for c
  proof -
    from that assms have "no_cycle (mapping c) (current_node c)"
      by simp
    from classify_loop_returns [OF this, of 0] show ?thesis
      by (simp add: getAssistantFromConversation_def split: option.splits)
  qed
  have total: "\<forall>c \<in> set xs. \<exists>b. ?p c = Some b" if "set xs \<subseteq> set all" for xs
  proof
    fix c
    assume "c \<in> set xs"
    with that ret obtain r where "getAssistantFromConversation c = Some r"
      by blast
    then show "\<exists>b. ?p c = Some b"
      by simp
  qed
  have pt: "(?p c = Some True) = (\<exists>a \<in> set sel. getAssistantFromConversation c = Some (Some a))"
    for c
    by (auto split: option.splits)
  have gpt: "filter_opt ?p xs =
      Some (filter (\<lambda>c. \<exists>a \<in> set sel. getAssistantFromConversation c = Some (Some a)) xs)"
    if "set xs \<subseteq> set all" for xs
    using filter_opt_total [OF total [OF that]] by (simp only: pt)
  show ?thesis
  proof (cases "search = []")
    case True
    then show ?thesis
      using gpt [of all] by (simp add: filterConversations_def Let_def sel_def [symmetric])
  next
    case False
    let ?xs = "filter (\<lambda>c. str_includes (toLowerCase (title c)) (toLowerCase search)) all"
    have "set ?xs \<subseteq> set all"
      by auto
    from gpt [OF this] False show ?thesis
      by (simp add: filterConversations_def Let_def sel_def [symmetric] conj_commute)
  qed
qed

theorem filter_keeps_matching_in_order_witness:
  "filterConversations five_conversations ''Love''
     [(''Lester'', False), (''Osho'', True), (''Neville'', False)] =
   Some [mk_conversation ''k1'' ''Osho on love'' [] ''x'',
         mk_conversation ''k5'' ''More LOVE'' partless ''a''] \<and>
   filterConversations [conv_latin1] (CHR 0xC4 # ''LSKAR'')
     [(''Lester'', True), (''Osho'', True), (''Neville'', True)] = Some [conv_latin1]"
proof -
  have e: "no_cycle [] ''x''"
    by (rule parent_chain_no_cycle [of _ _ "[]"]) simp
  then have nl: "\<forall>c \<in> set [conv_latin1]. no_cycle (mapping c) (current_node c)"
    by (simp add: conv_latin1_def mk_conversation_def)
  have latin: "filterConversations [conv_latin1] (CHR 0xC4 # ''LSKAR'')
     [(''Lester'', True), (''Osho'', True), (''Neville'', True)] = Some [conv_latin1]"
    unfolding filter_keeps_matching_in_order [OF nl]
    by (simp add: conv_latin1_def mk_conversation_def getAssistantFromConversation_def
        known_name_def lower_simps)
  have nc: "\<forall>c \<in> set five_conversations. no_cycle (mapping c) (current_node c)"
  proof -
    have "parent_chain partless (Some ''a'')
            [mk_node ''a'' (Some msg_no_parts) (Some ''b''),
             mk_node ''b'' (Some (mk_message ''m2'' ''assistant'' [''Osho said''])) None]"
      by (simp add: partless_def mk_node_def)
    then have "no_cycle partless ''a''"
      by (rule parent_chain_no_cycle)
    with e show ?thesis
      by (simp add: five_conversations_def mk_conversation_def)
  qed
  have x: "classify_loop [] (Some ''x'') 0 = Some None"
    by (subst classify_loop.simps) (simp add: classify_body_def)
  have b: "classify_body partless ''b'' 0 = Return ''Osho''"
    by (simp add: classify_body_def partless_def mk_node_def mk_message_def known_name_def
        lower_simps)
  have a: "classify_body partless ''a'' 0 = Continue (Some ''b'') 0"
    by (simp add: classify_body_def partless_def mk_node_def msg_no_parts_def)
  have "classify_loop partless (Some ''a'') 0 = classify_loop partless (Some ''b'') 0"
    by (subst classify_loop.simps) (simp add: a MAX_MESSAGES_TO_CHECK_def)
  also have "\<dots> = Some (Some ''Osho'')"
    by (subst classify_loop.simps) (simp add: b MAX_MESSAGES_TO_CHECK_def)
  finally have p: "classify_loop partless (Some ''a'') 0 = Some (Some ''Osho'')" .
  have "filterConversations five_conversations ''Love''
     [(''Lester'', False), (''Osho'', True), (''Neville'', False)] =
   Some [mk_conversation ''k1'' ''Osho on love'' [] ''x'',
         mk_conversation ''k5'' ''More LOVE'' partless ''a'']"
    unfolding filter_keeps_matching_in_order [OF nc]
    by (simp add: five_conversations_def mk_conversation_def getAssistantFromConversation_def
        known_name_def lower_simps x p)
  with latin show ?thesis
    by simp
qed

section \<open>Summarizer walk, persistence and timestamps: results\<close>

text \<open>
  C9.  The summarizer's walk tests the node and its message only.  At a node whose
  message has no content, or a content without parts, reading the parts raises a
  TypeError, which ends the walk and the whole submission; the node is not skipped.
\<close>

theorem summarizer_walk_faults_on_malformed_node:
  "collect_loop (mapping conv_no_content) (Some (current_node conv_no_content)) ''fear'' []
     = Some (Inl TypeError) \<and>
   collect_loop partless (Some ''a'') ''fear'' [] = Some (Inl TypeError) \<and>
   handlePromptSubmit [conv_no_content] ''Sammanfatta alla Lester-konversationer om fear''
     (Some ''key'') = Some (Inl TypeError)"
proof -
  have 1: "collect_loop [(''a'', mk_node ''a'' (Some msg_no_content) None)] (Some ''a'') ''fear'' []
      = Some (Inl TypeError)"
    by (subst collect_loop.simps) (simp add: mk_node_def msg_no_content_def)
  have 2: "collect_loop partless (Some ''a'') ''fear'' [] = Some (Inl TypeError)"
    by (subst collect_loop.simps) (simp add: partless_def mk_node_def msg_no_parts_def)
  have 3: "interpret_prompt ''Sammanfatta alla Lester-konversationer om fear''
      = Inr (''Lester'', ''fear'')"
    by code_simp
  have 4: "relevantConversations [conv_no_content] ''Lester'' = [conv_no_content]"
    by (simp add: relevantConversations_def conv_no_content_def mk_conversation_def
        lower_simps)
  have 5: "collect_all [conv_no_content] ''fear'' [] = Some (Inl TypeError)"
    using 1 by (simp add: conv_no_content_def mk_conversation_def)
  show ?thesis
    using 1 2 by (simp add: handlePromptSubmit_def 3 4 5) (simp add: conv_no_content_def mk_conversation_def)
qed

lemma fresh_load_conversations: "conversations (fresh_load store data) = data"
  by (simp add: fresh_load_def loadCleanedIds_def fetchConversations_def split: option.splits)

text \<open>
  C5.  A confirmed deletion takes the conversation out of the list in memory and removes
  its key from the conversation store, but a fresh load never reads that store: the
  list is again the whole fetched archive, the deleted conversation included.
\<close>

theorem deleted_conversation_is_back_after_fresh_load:
  "(case confirmDelete
           (handleDeleteConversation ''k1'' ''Osho on love''
              (fresh_load empty_storage five_conversations), empty_storage) of
      (s1, store1) \<Rightarrow>
        map id_conversation (conversations s1) = [''k2'', ''k3'', ''k4'', ''k5''] \<and>
        map id_conversation (conversations (fresh_load store1 five_conversations))
          = [''k1'', ''k2'', ''k3'', ''k4'', ''k5''])"
  by (simp add: confirmDelete_def handleDeleteConversation_def fresh_load_conversations
      five_conversations_def mk_conversation_def Let_def
      fresh_load_def loadCleanedIds_def fetchConversations_def empty_storage_def initial_state_def)

text \<open>
  C8.  The timestamp 1e19 exceeds 1e12 and is divided by 1000; 1e16 milliseconds are out
  of the range of a date, so the date is invalid, its year is NaN and both comparisons
  of line 56 are false: the result is the string the locale formatting gives for an
  invalid date, not \<open>'Ogiltigt datum'\<close>.
\<close>

theorem formatDate_invalid_date_is_not_the_sentinel:
  "formatDate tza (10 ^ 19) = LocaleDateString None \<and>
   formatDate tza (10 ^ 19) \<noteq> Ogiltigt_datum"
  by (simp add: formatDate_def new_Date_def getFullYear_def)

lemma formatDate_seconds_scale:
  "formatDate (\<lambda>t. 0) 1700000000 = LocaleDateString (Some 1700000000000)"
  by (simp add: formatDate_def new_Date_def getFullYear_def YearFromTime_def msPerDay_def
      year_down.simps DayFromYear_def)

lemma formatDate_year_2030:
  "formatDate (\<lambda>t. 0) 1900000000 = Ogiltigt_datum"
  by (simp add: formatDate_def new_Date_def getFullYear_def YearFromTime_def msPerDay_def
      year_down.simps DayFromYear_def)

section \<open>The prompt pattern: results\<close>

lemma startsWith_take: "length p = n \<Longrightarrow> startsWith s p \<Longrightarrow> take n s = p"
  by (induction s p arbitrary: n rule: startsWith.induct) auto

lemma startsWith_append:
  "length p = n \<Longrightarrow> startsWith s (p @ q) = (startsWith s p \<and> startsWith (drop n s) q)"
  by (induction s p arbitrary: n rule: startsWith.induct) auto

lemma toLowerCase_drop: "toLowerCase (drop n s) = drop n (toLowerCase s)"
  by (simp add: toLowerCase_def drop_map)

lemma toLowerCase_take: "toLowerCase (take n s) = take n (toLowerCase s)"
  by (simp add: toLowerCase_def take_map)

lemma alternative_cases:
  "alternative r = Some n \<Longrightarrow>
     (n = 6 \<and> startsWith (toLowerCase r) ''lester'') \<or>
     (n = 4 \<and> startsWith (toLowerCase r) ''osho'') \<or>
     (n = 7 \<and> startsWith (toLowerCase r) ''neville'')"
  by (auto simp: alternative_def split: if_splits)

lemma names_exclusive:
  "startsWith x ''lester'' \<Longrightarrow> \<not> startsWith x ''osho'' \<and> \<not> startsWith x ''neville''"
  "startsWith x ''osho'' \<Longrightarrow> \<not> startsWith x ''neville''"
  by (cases x; simp)+

lemma alternative_iff:
  "(\<exists>n. alternative r = Some n \<and> startsWith (drop n (toLowerCase r)) b) =
   (\<exists>name \<in> {''lester'', ''osho'', ''neville''}. startsWith (toLowerCase r) (name @ b))"
proof -
  let ?x = "toLowerCase r"
  have l: "startsWith ?x (''lester'' @ b) = (startsWith ?x ''lester'' \<and> startsWith (drop 6 ?x) b)"
    by (rule startsWith_append) simp
  have o: "startsWith ?x (''osho'' @ b) = (startsWith ?x ''osho'' \<and> startsWith (drop 4 ?x) b)"
    by (rule startsWith_append) simp
  have n: "startsWith ?x (''neville'' @ b) = (startsWith ?x ''neville'' \<and> startsWith (drop 7 ?x) b)"
    by (rule startsWith_append) simp
  have e: "(\<exists>name \<in> {''lester'', ''osho'', ''neville''}. startsWith ?x (name @ b)) =
           (startsWith ?x (''lester'' @ b) \<or> startsWith ?x (''osho'' @ b) \<or>
            startsWith ?x (''neville'' @ b))"
    by blast
  show ?thesis
    unfolding e l o n alternative_def
    using names_exclusive [of ?x] by auto
qed

lemma match_at_iff: "(match_at s \<noteq> None) = is_pattern s"
proof -
  let ?l = "toLowerCase s"
  have "(match_at s \<noteq> None) =
        (startsWith ?l ''sammanfatta alla '' \<and>
         (\<exists>n. alternative (drop 17 s) = Some n \<and>
              startsWith (drop n (toLowerCase (drop 17 s))) ''-konversationer om ''))"
    by (auto simp: match_at_def Let_def toLowerCase_drop split: option.splits)
  also have "\<dots> = (\<exists>name \<in> {''lester'', ''osho'', ''neville''}.
         startsWith ?l ''sammanfatta alla '' \<and>
         startsWith (drop 17 ?l) (name @ ''-konversationer om ''))"
    using alternative_iff [of "drop 17 s" "''-konversationer om ''"]
    unfolding toLowerCase_drop by blast
  also have "\<dots> = is_pattern s"
    unfolding is_pattern_def
    by (subst startsWith_append [of "''sammanfatta alla ''" 17]) simp_all
  finally show ?thesis .
qed

lemma regex_match_iff:
  "(regex_match s \<noteq> None) = (\<exists>pre suf. s = pre @ suf \<and> match_at suf \<noteq> None)"
proof (induction s)
  case Nil
  then show ?case by simp
next
  case (Cons c cs)
  show ?case
  proof (cases "match_at (c # cs)")
    case (Some g)
    then have "c # cs = [] @ (c # cs) \<and> match_at (c # cs) \<noteq> None"
      by simp
    then have "\<exists>pre suf. c # cs = pre @ suf \<and> match_at suf \<noteq> None"
      by blast
    with Some show ?thesis by simp
  next
    case None
    have "(\<exists>pre suf. c # cs = pre @ suf \<and> match_at suf \<noteq> None) =
          (\<exists>pre suf. cs = pre @ suf \<and> match_at suf \<noteq> None)"
    proof
      assume "\<exists>pre suf. c # cs = pre @ suf \<and> match_at suf \<noteq> None"
      then obtain pre suf where d: "c # cs = pre @ suf" and m: "match_at suf \<noteq> None"
        by blast
      with None obtain pre' where "pre = c # pre'"
        by (cases pre) auto
      with d m show "\<exists>pre suf. cs = pre @ suf \<and> match_at suf \<noteq> None"
        by auto
    next
      assume "\<exists>pre suf. cs = pre @ suf \<and> match_at suf \<noteq> None"
      then obtain pre suf where "cs = pre @ suf" and m: "match_at suf \<noteq> None"
        by blast
      then have "c # cs = (c # pre) @ suf"
        by simp
      with m show "\<exists>pre suf. c # cs = pre @ suf \<and> match_at suf \<noteq> None"
        by blast
    qed
    with None Cons.IH show ?thesis by simp
  qed
qed

lemma match_at_groups:
  assumes "match_at s = Some (g, t)"
  shows "\<exists>a b rest. s = a @ g @ b @ t @ rest \<and>
           toLowerCase a = ''sammanfatta alla '' \<and>
           toLowerCase g \<in> {''lester'', ''osho'', ''neville''} \<and>
           toLowerCase b = ''-konversationer om '' \<and>
           (\<forall>c \<in> set t. \<not> line_terminator c) \<and>
           (rest = [] \<or> line_terminator (hd rest))"
proof -
  let ?r = "drop 17 s"
  from assms obtain n where sw1: "startsWith (toLowerCase s) ''sammanfatta alla ''"
    and alt: "alternative ?r = Some n"
    and sw3: "startsWith (toLowerCase (drop n ?r)) ''-konversationer om ''"
    and g: "g = take n ?r"
    and t: "t = takeWhile (\<lambda>c. \<not> line_terminator c) (drop 19 (drop n ?r))"
    by (auto simp: match_at_def Let_def split: if_splits option.splits)
  let ?a = "take 17 s" and ?b = "take 19 (drop n ?r)"
  let ?rest = "dropWhile (\<lambda>c. \<not> line_terminator c) (drop 19 (drop n ?r))"
  have "s = ?a @ ?r"
    by simp
  also have "?r = g @ drop n ?r"
    by (simp only: g append_take_drop_id)
  also have "drop n ?r = ?b @ drop 19 (drop n ?r)"
    by (simp only: append_take_drop_id)
  also have "drop 19 (drop n ?r) = t @ ?rest"
    by (simp only: t takeWhile_dropWhile_id)
  finally have split: "s = ?a @ g @ ?b @ t @ ?rest" .
  from sw1 have a: "toLowerCase ?a = ''sammanfatta alla ''"
    unfolding toLowerCase_take by (rule startsWith_take [rotated]) simp
  from sw3 have b: "toLowerCase ?b = ''-konversationer om ''"
    unfolding toLowerCase_take by (rule startsWith_take [rotated]) simp
  from alternative_cases [OF alt] have n: "toLowerCase g \<in> {''lester'', ''osho'', ''neville''}"
    unfolding g toLowerCase_take
    by (auto dest: startsWith_take [of "''lester''" 6, rotated]
        startsWith_take [of "''osho''" 4, rotated] startsWith_take [of "''neville''" 7, rotated])
  have tt: "\<forall>c \<in> set t. \<not> line_terminator c"
    by (auto simp: t dest: set_takeWhileD)
  have rr: "?rest = [] \<or> line_terminator (hd ?rest)"
    using hd_dropWhile [of "\<lambda>c. \<not> line_terminator c" "drop 19 (drop n ?r)"] by blast
  from split a n b tt rr show ?thesis
    by blast
qed

lemma startsWith_prefix: "startsWith (p @ r) p"
  by (induction p) auto

lemma toLowerCase_append: "toLowerCase (x @ y) = toLowerCase x @ toLowerCase y"
  by (simp add: toLowerCase_def)

lemma toLowerCase_length: "length (toLowerCase x) = length x"
  by (simp add: toLowerCase_def)

lemma alternative_name:
  assumes "toLowerCase g \<in> {''lester'', ''osho'', ''neville''}"
  shows "alternative (g @ r) = Some (length g)"
proof -
  have sw: "startsWith (toLowerCase (g @ r)) (toLowerCase g)"
    by (simp add: toLowerCase_append startsWith_prefix)
  have len: "length g = length (toLowerCase g)"
    by (simp add: toLowerCase_length)
  from assms consider "toLowerCase g = ''lester''" | "toLowerCase g = ''osho''"
    | "toLowerCase g = ''neville''"
    by auto
  then show ?thesis
  proof cases
    case 1
    with sw len show ?thesis
      by (simp add: alternative_def)
  next
    case 2
    with sw len names_exclusive(1) [of "toLowerCase (g @ r)"] show ?thesis
      by (auto simp: alternative_def)
  next
    case 3
    with sw len names_exclusive [of "toLowerCase (g @ r)"] show ?thesis
      by (auto simp: alternative_def)
  qed
qed

lemma takeWhile_line:
  assumes "\<forall>c \<in> set t. \<not> line_terminator c" and "rest = [] \<or> line_terminator (hd rest)"
  shows "takeWhile (\<lambda>c. \<not> line_terminator c) (t @ rest) = t"
proof -
  from assms(2) have "takeWhile (\<lambda>c. \<not> line_terminator c) rest = []"
    by (cases rest) auto
  with assms(1) show ?thesis
    by (simp add: takeWhile_append2)
qed

lemma match_at_decomposition:
  assumes "toLowerCase a = ''sammanfatta alla ''"
    and "toLowerCase g \<in> {''lester'', ''osho'', ''neville''}"
    and "toLowerCase b = ''-konversationer om ''"
    and "\<forall>c \<in> set t. \<not> line_terminator c"
    and "rest = [] \<or> line_terminator (hd rest)"
  shows "match_at (a @ g @ b @ t @ rest) = Some (g, t)"
proof -
  have la: "length a = 17"
    using toLowerCase_length [of a] by (simp add: assms(1))
  have lb: "length b = 19"
    using toLowerCase_length [of b] by (simp add: assms(3))
  define r3 where "r3 = t @ rest"
  define r2 where "r2 = b @ r3"
  define r where "r = g @ r2"
  have 1: "startsWith (toLowerCase (a @ r)) ''sammanfatta alla ''"
    unfolding toLowerCase_append assms(1) by (rule startsWith_prefix)
  have 2: "drop 17 (a @ r) = r"
    by (simp add: la)
  have 3: "alternative r = Some (length g)"
    unfolding r_def by (rule alternative_name [OF assms(2)])
  have 4: "drop (length g) r = r2" "take (length g) r = g"
    by (simp_all add: r_def)
  have 5: "startsWith (toLowerCase r2) ''-konversationer om ''"
    unfolding r2_def toLowerCase_append assms(3) by (rule startsWith_prefix)
  have 6: "drop 19 r2 = r3"
    by (simp add: r2_def lb)
  have 7: "takeWhile (\<lambda>c. \<not> line_terminator c) r3 = t"
    unfolding r3_def by (rule takeWhile_line [OF assms(4,5)])
  have "match_at (a @ r) = Some (g, t)"
    by (simp add: match_at_def Let_def 1 2 3 4 5 6 7 del: drop_append)
  then show ?thesis
    by (simp add: r_def r2_def r3_def)
qed

lemma regex_match_first:
  "(regex_match s = Some gt) =
   (\<exists>pre suf. s = pre @ suf \<and> match_at suf = Some gt \<and>
      (\<forall>pre' suf'. s = pre' @ suf' \<and> length pre' < length pre \<longrightarrow> match_at suf' = None))"
proof (induction s)
  case Nil
  then show ?case by simp
next
  case (Cons c cs)
  show ?case
  proof (cases "match_at (c # cs)")
    case (Some g')
    show ?thesis
    proof
      assume "regex_match (c # cs) = Some gt"
      with Some have "c # cs = [] @ (c # cs) \<and> match_at (c # cs) = Some gt \<and>
          (\<forall>pre' suf'. c # cs = pre' @ suf' \<and> length pre' < length ([]::string)
             \<longrightarrow> match_at suf' = None)"
        by simp
      then show "\<exists>pre suf. c # cs = pre @ suf \<and> match_at suf = Some gt \<and>
          (\<forall>pre' suf'. c # cs = pre' @ suf' \<and> length pre' < length pre
             \<longrightarrow> match_at suf' = None)"
        by blast
    next
      assume "\<exists>pre suf. c # cs = pre @ suf \<and> match_at suf = Some gt \<and>
          (\<forall>pre' suf'. c # cs = pre' @ suf' \<and> length pre' < length pre
             \<longrightarrow> match_at suf' = None)"
      then obtain pre suf where d: "c # cs = pre @ suf" and m: "match_at suf = Some gt"
        and f: "\<forall>pre' suf'. c # cs = pre' @ suf' \<and> length pre' < length pre
             \<longrightarrow> match_at suf' = None"
        by blast
      have "pre = []"
      proof (rule ccontr)
        assume "pre \<noteq> []"
        then have "c # cs = [] @ (c # cs) \<and> length ([]::string) < length pre"
          by simp
        with f have "match_at (c # cs) = None"
          by blast
        with Some show False
          by simp
      qed
      with d have "suf = c # cs"
        by simp
      with m Some have "gt = g'"
        by simp
      with Some show "regex_match (c # cs) = Some gt"
        by simp
    qed
  next
    case None
    have "(\<exists>pre suf. c # cs = pre @ suf \<and> match_at suf = Some gt \<and>
            (\<forall>pre' suf'. c # cs = pre' @ suf' \<and> length pre' < length pre
               \<longrightarrow> match_at suf' = None)) =
          (\<exists>pre suf. cs = pre @ suf \<and> match_at suf = Some gt \<and>
            (\<forall>pre' suf'. cs = pre' @ suf' \<and> length pre' < length pre
               \<longrightarrow> match_at suf' = None))"
    proof
      assume "\<exists>pre suf. c # cs = pre @ suf \<and> match_at suf = Some gt \<and>
            (\<forall>pre' suf'. c # cs = pre' @ suf' \<and> length pre' < length pre
               \<longrightarrow> match_at suf' = None)"
      then obtain pre suf where d: "c # cs = pre @ suf" and m: "match_at suf = Some gt"
        and f: "\<And>pre' suf'. c # cs = pre' @ suf' \<Longrightarrow> length pre' < length pre
             \<Longrightarrow> match_at suf' = None"
        by blast
      from d m None obtain pre0 where p: "pre = c # pre0" and d0: "cs = pre0 @ suf"
        by (cases pre) auto
      have "match_at suf' = None" if "cs = pre'' @ suf'" "length pre'' < length pre0"
        for pre'' suf'
        using f [of "c # pre''" suf'] that p by simp
      with d0 m show "\<exists>pre suf. cs = pre @ suf \<and> match_at suf = Some gt \<and>
            (\<forall>pre' suf'. cs = pre' @ suf' \<and> length pre' < length pre
               \<longrightarrow> match_at suf' = None)"
        by blast
    next
      assume "\<exists>pre suf. cs = pre @ suf \<and> match_at suf = Some gt \<and>
            (\<forall>pre' suf'. cs = pre' @ suf' \<and> length pre' < length pre
               \<longrightarrow> match_at suf' = None)"
      then obtain pre suf where d: "cs = pre @ suf" and m: "match_at suf = Some gt"
        and f: "\<And>pre' suf'. cs = pre' @ suf' \<Longrightarrow> length pre' < length pre
             \<Longrightarrow> match_at suf' = None"
        by blast
      have "match_at suf' = None" if "c # cs = pre' @ suf'" "length pre' < length (c # pre)"
        for pre' suf'
      proof (cases pre')
        case Nil
        with that None show ?thesis
          by simp
      next
        case (Cons x pre'')
        with that f [of pre'' suf'] show ?thesis
          by simp
      qed
      moreover from d have "c # cs = (c # pre) @ suf"
        by simp
      ultimately show "\<exists>pre suf. c # cs = pre @ suf \<and> match_at suf = Some gt \<and>
            (\<forall>pre' suf'. c # cs = pre' @ suf' \<and> length pre' < length pre
               \<longrightarrow> match_at suf' = None)"
        using m by blast
    qed
    with None Cons.IH show ?thesis
      by simp
  qed
qed

text \<open>
  C4, as stated, fails: the expression is not anchored, so a prompt that only contains
  the pattern after other text is accepted.
\<close>

theorem interpret_accepts_embedded_pattern_counterexample:
  "\<not> is_pattern prompt_embedded \<and> interpret_prompt prompt_embedded = Inr (''Lester'', ''fear'')"
proof -
  have "\<not> is_pattern prompt_embedded"
    by (simp add: is_pattern_def prompt_embedded_def lower_simps)
  moreover have "interpret_prompt prompt_embedded = Inr (''Lester'', ''fear'')"
    by code_simp
  ultimately show ?thesis
    by simp
qed

text \<open>
  C4, amended.  A prompt is accepted exactly when the pattern occurs in it, starting at
  any position; every other prompt is rejected with the usage hint.  The result is the
  name \<open>g\<close> and topic \<open>t\<close> exactly when the prompt is some text \<open>pre\<close>, the words
  \<open>Sammanfatta alla\<close>, the name \<open>g\<close>, \<open>-konversationer om\<close>, the topic \<open>t\<close> and a
  remainder, where the pattern occurs at no position before the end of \<open>pre\<close> (the
  first occurrence is taken), the topic holds no line terminator, and the remainder is
  empty or starts with one (the topic runs to the end of its line).
\<close>

theorem interpret_accepts_first_occurrence:
  "((\<exists>g t. interpret_prompt p = Inr (g, t)) = (\<exists>pre suf. p = pre @ suf \<and> is_pattern suf)) \<and>
   ((interpret_prompt p = Inl usage_hint) = (\<not> (\<exists>pre suf. p = pre @ suf \<and> is_pattern suf))) \<and>
   ((interpret_prompt p = Inr (g, t)) =
      (\<exists>pre a b rest. p = pre @ a @ g @ b @ t @ rest \<and>
         toLowerCase a = ''sammanfatta alla '' \<and>
         toLowerCase g \<in> {''lester'', ''osho'', ''neville''} \<and>
         toLowerCase b = ''-konversationer om '' \<and>
         (\<forall>c \<in> set t. \<not> line_terminator c) \<and>
         (rest = [] \<or> line_terminator (hd rest)) \<and>
         (\<forall>pre' suf'. p = pre' @ suf' \<and> length pre' < length pre \<longrightarrow> \<not> is_pattern suf')))"
proof (intro conjI)
  have m: "(regex_match p \<noteq> None) = (\<exists>pre suf. p = pre @ suf \<and> is_pattern suf)"
    by (simp only: regex_match_iff match_at_iff)
  have "(\<exists>g t. interpret_prompt p = Inr (g, t)) = (regex_match p \<noteq> None)"
    by (auto simp: interpret_prompt_def split: option.splits)
  then show "(\<exists>g t. interpret_prompt p = Inr (g, t)) = (\<exists>pre suf. p = pre @ suf \<and> is_pattern suf)"
    by (simp only: m)
  have "(interpret_prompt p = Inl usage_hint) = (\<not> regex_match p \<noteq> None)"
    by (auto simp: interpret_prompt_def split: option.splits)
  then show "(interpret_prompt p = Inl usage_hint) = (\<not> (\<exists>pre suf. p = pre @ suf \<and> is_pattern suf))"
    by (simp only: m)
next
  let ?occ = "\<lambda>pre a b rest. p = pre @ a @ g @ b @ t @ rest \<and>
         toLowerCase a = ''sammanfatta alla '' \<and>
         toLowerCase g \<in> {''lester'', ''osho'', ''neville''} \<and>
         toLowerCase b = ''-konversationer om '' \<and>
         (\<forall>c \<in> set t. \<not> line_terminator c) \<and>
         (rest = [] \<or> line_terminator (hd rest)) \<and>
         (\<forall>pre' suf'. p = pre' @ suf' \<and> length pre' < length pre \<longrightarrow> \<not> is_pattern suf')"
  have none: "(match_at s = None) = (\<not> is_pattern s)" for s
    using match_at_iff [of s] by blast
  have r: "(interpret_prompt p = Inr (g, t)) = (regex_match p = Some (g, t))"
    by (auto simp: interpret_prompt_def split: option.splits)
  show "(interpret_prompt p = Inr (g, t)) = (\<exists>pre a b rest. ?occ pre a b rest)"
    unfolding r regex_match_first none
  proof
    assume "\<exists>pre suf. p = pre @ suf \<and> match_at suf = Some (g, t) \<and>
        (\<forall>pre' suf'. p = pre' @ suf' \<and> length pre' < length pre \<longrightarrow> \<not> is_pattern suf')"
    then obtain pre suf where p: "p = pre @ suf" and m: "match_at suf = Some (g, t)"
      and f: "\<forall>pre' suf'. p = pre' @ suf' \<and> length pre' < length pre \<longrightarrow> \<not> is_pattern suf'"
      by blast
    from match_at_groups [OF m] obtain a b rest where "suf = a @ g @ b @ t @ rest"
      "toLowerCase a = ''sammanfatta alla ''"
      "toLowerCase g \<in> {''lester'', ''osho'', ''neville''}"
      "toLowerCase b = ''-konversationer om ''"
      "\<forall>c \<in> set t. \<not> line_terminator c" "rest = [] \<or> line_terminator (hd rest)"
      by blast
    with p f have "?occ pre a b rest"
      by simp
    then show "\<exists>pre a b rest. ?occ pre a b rest"
      by blast
  next
    assume "\<exists>pre a b rest. ?occ pre a b rest"
    then obtain pre a b rest where o: "?occ pre a b rest"
      by blast
    then have "match_at (a @ g @ b @ t @ rest) = Some (g, t)"
      by (intro match_at_decomposition) simp_all
    with o show "\<exists>pre suf. p = pre @ suf \<and> match_at suf = Some (g, t) \<and>
        (\<forall>pre' suf'. p = pre' @ suf' \<and> length pre' < length pre \<longrightarrow> \<not> is_pattern suf')"
      by blast
  qed
qed

theorem interpret_accepts_first_occurrence_witness:
  "interpret_prompt prompt_twice =
     Inr (''Neville'', ''Sammanfatta alla Osho-konversationer om joy'') \<and>
   interpret_prompt prompt_twice \<noteq> Inr (''Osho'', ''joy'') \<and>
   interpret_prompt prompt_two_lines = Inr (''osho'', ''love'') \<and>
   \<not> (\<exists>pre suf. ''Sammanfatta Lester om fear'' = pre @ suf \<and> is_pattern suf)"
proof -
  let ?r = "CHR 0x0A # ''and more''"
  have "prompt_two_lines = [] @ ''sammanfatta ALLA '' @ ''osho'' @ ''-konversationer om '' @ ''love'' @ ?r \<and>
      toLowerCase ''sammanfatta ALLA '' = ''sammanfatta alla '' \<and>
      toLowerCase ''osho'' \<in> {''lester'', ''osho'', ''neville''} \<and>
      toLowerCase ''-konversationer om '' = ''-konversationer om '' \<and>
      (\<forall>c \<in> set ''love''. \<not> line_terminator c) \<and>
      (?r = [] \<or> line_terminator (hd ?r)) \<and>
      (\<forall>pre' suf'. prompt_two_lines = pre' @ suf' \<and> length pre' < length ([]::string)
         \<longrightarrow> \<not> is_pattern suf')"
    by (simp add: prompt_two_lines_def lower_simps line_terminator_def)
  then have "\<exists>pre a b rest. prompt_two_lines = pre @ a @ ''osho'' @ b @ ''love'' @ rest \<and>
      toLowerCase a = ''sammanfatta alla '' \<and>
      toLowerCase ''osho'' \<in> {''lester'', ''osho'', ''neville''} \<and>
      toLowerCase b = ''-konversationer om '' \<and>
      (\<forall>c \<in> set ''love''. \<not> line_terminator c) \<and>
      (rest = [] \<or> line_terminator (hd rest)) \<and>
      (\<forall>pre' suf'. prompt_two_lines = pre' @ suf' \<and> length pre' < length pre
         \<longrightarrow> \<not> is_pattern suf')"
    by blast
  with interpret_accepts_first_occurrence [of prompt_two_lines "''osho''" "''love''"]
  have 3: "interpret_prompt prompt_two_lines = Inr (''osho'', ''love'')"
    by blast
  let ?t = "''Sammanfatta alla Osho-konversationer om joy''"
  have "prompt_twice = [] @ ''Sammanfatta alla '' @ ''Neville'' @ ''-konversationer om '' @ ?t @ [] \<and>
      toLowerCase ''Sammanfatta alla '' = ''sammanfatta alla '' \<and>
      toLowerCase ''Neville'' \<in> {''lester'', ''osho'', ''neville''} \<and>
      toLowerCase ''-konversationer om '' = ''-konversationer om '' \<and>
      (\<forall>c \<in> set ?t. \<not> line_terminator c) \<and>
      (([]::string) = [] \<or> line_terminator (hd [])) \<and>
      (\<forall>pre' suf'. prompt_twice = pre' @ suf' \<and> length pre' < length ([]::string)
         \<longrightarrow> \<not> is_pattern suf')"
    by (simp add: prompt_twice_def lower_simps line_terminator_def)
  then have "\<exists>pre a b rest. prompt_twice = pre @ a @ ''Neville'' @ b @ ?t @ rest \<and>
      toLowerCase a = ''sammanfatta alla '' \<and>
      toLowerCase ''Neville'' \<in> {''lester'', ''osho'', ''neville''} \<and>
      toLowerCase b = ''-konversationer om '' \<and>
      (\<forall>c \<in> set ?t. \<not> line_terminator c) \<and>
      (rest = [] \<or> line_terminator (hd rest)) \<and>
      (\<forall>pre' suf'. prompt_twice = pre' @ suf' \<and> length pre' < length pre
         \<longrightarrow> \<not> is_pattern suf')"
    by blast
  with interpret_accepts_first_occurrence [of prompt_twice "''Neville''" ?t]
  have 1: "interpret_prompt prompt_twice = Inr (''Neville'', ?t)"
    by blast
  have "interpret_prompt ''Sammanfatta Lester om fear'' = Inl usage_hint"
    by code_simp
  with interpret_accepts_first_occurrence [of "''Sammanfatta Lester om fear''"]
  have 2: "\<not> (\<exists>pre suf. ''Sammanfatta Lester om fear'' = pre @ suf \<and> is_pattern suf)"
    by blast
  from 1 2 3 show ?thesis
    by simp
qed

section \<open>The year of a time value\<close>

lemma year_down_le: "DayFromYear (year_down d y) \<le> d"
  by (induction d y rule: year_down.induct) (subst year_down.simps, simp)

lemma year_down_greatest: "y' \<le> y \<Longrightarrow> DayFromYear y' \<le> d \<Longrightarrow> y' \<le> year_down d y"
proof (induction d y rule: year_down.induct)
  case (1 d y)
  show ?case
  proof (cases "DayFromYear y \<le> d")
    case True
    with "1.prems" show ?thesis
      by (subst year_down.simps) simp
  next
    case False
    with "1.prems" have "y' \<noteq> y"
      by auto
    with "1.prems" have "y' \<le> y - 1"
      by simp
    from "1.IH" [OF False this "1.prems"(2)] False show ?thesis
      by (subst year_down.simps) simp
  qed
qed

lemma leap_days_nonneg:
  assumes "1970 \<le> y"
  shows "365 * (y - 1970) \<le> DayFromYear y"
proof -
  have "(y - 1901) div 100 \<le> (y - 1969) div 4"
  proof (cases "y \<le> 1971")
    case True
    with assms have "y = 1970 \<or> y = 1971"
      by auto
    then show ?thesis
      by auto
  next
    case False
    then have "y - 1901 \<le> 25 * (y - 1969)"
      by simp
    then have "(y - 1901) div 100 \<le> (25 * (y - 1969)) div (25 * 4)"
      by (simp add: zdiv_mono1)
    also have "\<dots> = (y - 1969) div 4"
      by (rule div_mult_mult1) simp
    finally show ?thesis .
  qed
  moreover from assms have "0 \<le> (y - 1601) div 400"
    by simp
  ultimately show ?thesis
    by (simp add: DayFromYear_def)
qed

lemma YearFromTime_greatest:
  "DayFromYear (YearFromTime t) \<le> t div msPerDay \<and>
   (\<forall>y. DayFromYear y \<le> t div msPerDay \<longrightarrow> y \<le> YearFromTime t)"
proof (intro conjI allI impI)
  show "DayFromYear (YearFromTime t) \<le> t div msPerDay"
    by (simp add: YearFromTime_def Let_def year_down_le)
next
  fix y
  let ?d = "t div msPerDay"
  assume y: "DayFromYear y \<le> ?d"
  have "y \<le> 1970 + (if ?d \<ge> 0 then ?d div 365 else 0)"
  proof (cases "y \<le> 1970")
    case True
    moreover have "0 \<le> (if ?d \<ge> 0 then ?d div 365 else 0)"
      by (simp add: pos_imp_zdiv_nonneg_iff)
    ultimately show ?thesis
      by linarith
  next
    case False
    then have "365 * (y - 1970) \<le> DayFromYear y"
      by (intro leap_days_nonneg) simp
    with y have le: "365 * (y - 1970) \<le> ?d"
      by simp
    with False have "0 \<le> ?d"
      by simp
    moreover from le have "(365 * (y - 1970)) div 365 \<le> ?d div 365"
      by (rule zdiv_mono1) simp
    ultimately show ?thesis
      by simp
  qed
  from year_down_greatest [OF this y] show "y \<le> YearFromTime t"
    by (simp add: YearFromTime_def Let_def)
qed

lemma YearFromTime_examples:
  "YearFromTime 0 = 1970"
  "YearFromTime (-1) = 1969"
  "YearFromTime 1577836799999 = 2019"
  "YearFromTime 1577836800000 = 2020"
  "YearFromTime 1700000000000 = 2023"
  "YearFromTime 1767225599999 = 2025"
  "YearFromTime 1767225600000 = 2026"
  by (simp_all add: YearFromTime_def msPerDay_def year_down.simps DayFromYear_def)

lemma formatDate_valid_date:
  assumes "new_Date (if ts < 10 ^ 10 then ts * 1000 else if ts > 10 ^ 12 then ts / 1000 else ts)
             = Some t"
  shows "(formatDate tza ts = Ogiltigt_datum) =
         (YearFromTime (t + tza t) < 2020 \<or> YearFromTime (t + tza t) > 2025)"
  using assms by (simp add: formatDate_def Let_def getFullYear_def)

end
